theory Spec2Isabelle
  imports Main "HOL-Library.Word"
begin

unbundle bit_operations_syntax

section \<open>PKCS#7 padding: the Go package pkcs7pad\<close>

text \<open>
  The package has two functions, \<open>Pad\<close> and \<open>Unpad\<close>, over Go byte slices. The embedding
  keeps what Go has:
  \<^item> a byte is an \<open>8 word\<close>; Go's \<open>int\<close> (64 bits on amd64 and arm64) is a HOL \<open>int\<close>:
    a slice is shorter than \<open>2 ^ 63\<close> and every \<open>int\<close> the two functions compute lies
    between \<open>- 1\<close> and that length plus 255, so no 64-bit operation wraps. The
    narrowing conversion \<open>byte(i)\<close> in \<open>Pad\<close> is written out with \<open>word_of_int\<close>;
  \<^item> a slice is its header (address of the first element, length, capacity) and the
    bytes live in a memory from addresses to bytes, so that a slice expression
    \<open>buf[:k]\<close> is a view of the same bytes and \<open>append\<close> writes in place when the
    capacity allows it;
  \<^item> a run-time panic is a value \<open>Inl p\<close> of the result.
\<close>

subsection \<open>Slices, memory, panics\<close>

type_synonym byte = "8 word"

text \<open>The slice header of the Go runtime. The nil slice has a null pointer and no
  length or capacity.\<close>

record slice =
  ptr :: nat
  len :: nat
  cap :: nat

definition nil :: slice where
  "nil = \<lparr>ptr = 0, len = 0, cap = 0\<rparr>"

text \<open>The memory: its cells, the next free address of the allocator, and the growth
  policy of \<open>append\<close>, which the language leaves to the runtime (the new array is
  "sufficiently large"): \<open>growcap h c n\<close> is the capacity proposed for a slice of
  capacity \<open>c\<close> that must hold \<open>n\<close> elements.\<close>

record heap =
  cells :: "nat \<Rightarrow> byte"
  brk :: nat
  growcap :: "nat \<Rightarrow> nat \<Rightarrow> nat"

datatype panic =
    InappropriateBlockSize int
  | IndexOutOfRange
  | SliceBoundsOutOfRange
  | NegativeRepeatCount

text \<open>The one error value of the package; a nil \<open>error\<close> is \<open>None\<close>.\<close>

datatype error = errPKCS7Padding

text \<open>The bytes a slice shows: elements \<open>0\<close> to \<open>len - 1\<close>.\<close>

definition bytes_of :: "heap \<Rightarrow> slice \<Rightarrow> byte list" where
  "bytes_of h s = map (\<lambda>j. cells h (ptr s + j)) [0..<len s]"

text \<open>The index expression \<open>s[j]\<close>: a run-time panic unless \<open>0 \<le> j < len(s)\<close>.\<close>

definition index :: "heap \<Rightarrow> slice \<Rightarrow> int \<Rightarrow> panic + byte" where
  "index h s j =
     (if 0 \<le> j \<and> j < int (len s) then Inr (cells h (ptr s + nat j))
      else Inl IndexOutOfRange)"

text \<open>The slice expression \<open>s[:k]\<close>: a run-time panic unless \<open>0 \<le> k \<le> cap(s)\<close>; the
  result has the same pointer and capacity.\<close>

definition slice_to :: "slice \<Rightarrow> int \<Rightarrow> panic + slice" where
  "slice_to s k =
     (if 0 \<le> k \<and> k \<le> int (cap s) then Inr (s\<lparr>len := nat k\<rparr>)
      else Inl SliceBoundsOutOfRange)"

definition store :: "(nat \<Rightarrow> byte) \<Rightarrow> nat \<Rightarrow> byte list \<Rightarrow> (nat \<Rightarrow> byte)" where
  "store m a xs = (\<lambda>k. if a \<le> k \<and> k < a + length xs then xs ! (k - a) else m k)"

text \<open>The built-in \<open>append(s, xs...)\<close>: if the capacity suffices the new elements are
  written behind the slice, in its own array; otherwise a new zeroed array is
  allocated and the old elements are copied into it.\<close>

definition append_bytes :: "heap \<Rightarrow> slice \<Rightarrow> byte list \<Rightarrow> slice \<times> heap" where
  "append_bytes h s xs =
     (let n = len s + length xs in
      if n \<le> cap s then
        (s\<lparr>len := n\<rparr>, h\<lparr>cells := store (cells h) (ptr s + len s) xs\<rparr>)
      else
        let c = max n (growcap h (cap s) n); p = brk h in
        (\<lparr>ptr = p, len = n, cap = c\<rparr>,
         h\<lparr>cells := store (cells h) p (bytes_of h s @ xs @ replicate (c - n) 0),
           brk := p + c\<rparr>))"

text \<open>\<open>bytes.Repeat(b, count)\<close>: \<open>count\<close> copies of \<open>b\<close>; it panics on a negative count.
  The result is used once, as the variadic argument of \<open>append\<close>, and is kept as a
  value.\<close>

definition bytes_Repeat :: "byte list \<Rightarrow> int \<Rightarrow> panic + byte list" where
  "bytes_Repeat b count =
     (if count < 0 then Inl NegativeRepeatCount
      else Inr (concat (replicate (nat count) b)))"

subsection \<open>The constant-time primitives of crypto/subtle\<close>

text \<open>
  \<open>Unpad\<close> calls three functions of \<open>crypto/subtle\<close>, a package of Go's standard
  library and not of this repository. Selection and byte equality are written as the
  library has them:
  \<^verbatim>\<open>
  func ConstantTimeSelect(v, x, y int) int { return ^(v-1)&x | (v-1)&y }
  func ConstantTimeByteEq(x, y uint8) int { return int((uint32(x^y) - 1) >> 31) }
  \<close>
\<close>

definition ConstantTimeSelect :: "int \<Rightarrow> int \<Rightarrow> int \<Rightarrow> int" where
  "ConstantTimeSelect v x y = ((NOT (v - 1)) AND x) OR ((v - 1) AND y)"

definition ConstantTimeByteEq :: "byte \<Rightarrow> byte \<Rightarrow> int" where
  "ConstantTimeByteEq x y = uint (drop_bit 31 ((ucast (x XOR y) :: 32 word) - 1))"

text \<open>
  Modelled from the spec: \<open>subtle.ConstantTimeLessOrEq\<close>, whose source is not in the
  repository and whose release is not fixed by it. The specification has the three
  comparisons of \<open>Unpad\<close> as \<open>outOfRange = (padValue <= i)\<close> and
  \<open>1 \<le> padValue \<le> n\<close>, each yielding a truth value that is folded into \<open>good\<close>; the
  library documents the function as returning 1 if \<open>x <= y\<close> and 0 otherwise.
  Releases of the library that convert both arguments to \<open>int32\<close> first document
  this for arguments up to \<open>2 ^ 31 - 1\<close> only; the embedding follows the
  specification at every length.
\<close>

definition ConstantTimeLessOrEq :: "int \<Rightarrow> int \<Rightarrow> int" where
  "ConstantTimeLessOrEq x y = of_bool (x \<le> y)"

subsection \<open>Pad\<close>

text \<open>
  \<^verbatim>\<open>
  func Pad(buf []byte, size int) []byte {
          if size < 1 || size > 255 {
                  panic(fmt.Sprintf("pkcs7pad: inappropriate block size %d", size))
          }
          i := size - (len(buf) % size)
          return append(buf, bytes.Repeat([]byte{byte(i)}, i)...)
  }
  \<close>
  Behind the guard \<open>size\<close> is positive and \<open>len(buf)\<close> is not negative, where Go's
  truncating \<open>%\<close> is \<open>mod\<close>. The panic carries the block size of its message. The
  parameter \<open>size\<close> is written \<open>sz\<close>.
\<close>

definition Pad :: "heap \<Rightarrow> slice \<Rightarrow> int \<Rightarrow> panic + (slice \<times> heap)" where
  "Pad h buf sz =
     (if sz < 1 \<or> sz > 255 then Inl (InappropriateBlockSize sz)
      else
        let i = sz - (int (len buf) mod sz) in
        case bytes_Repeat [word_of_int i] i of
          Inl p \<Rightarrow> Inl p
        | Inr padding \<Rightarrow> Inr (append_bytes h buf padding))"

subsection \<open>Unpad\<close>

text \<open>
  What an observer of the execution sees besides the result: the outcome of every
  conditional branch of the source and the address of every byte that is read, in
  order. \<open>Unpad\<close> carries this list along as a ghost variable.
\<close>

datatype event = Branch bool | Load nat

text \<open>
  The validation loop, lines 45 to 51, with its variables \<open>i\<close> and \<open>good\<close>:
  \<^verbatim>\<open>
  for i := 0; i < toCheck; i++ {
          b := buf[len(buf)-1-i]
          outOfRange := subtle.ConstantTimeLessOrEq(int(padLen), i)
          equal := subtle.ConstantTimeByteEq(padLen, b)
          good &= subtle.ConstantTimeSelect(outOfRange, 1, equal)
  }
  \<close>
\<close>

function Unpad_loop ::
  "heap \<Rightarrow> slice \<Rightarrow> byte \<Rightarrow> int \<Rightarrow> int \<Rightarrow> int \<Rightarrow> event list \<Rightarrow> (panic + int) \<times> event list"
where
  "Unpad_loop h buf padLen toCheck i good tr =
     (if i < toCheck then
        (case index h buf (int (len buf) - 1 - i) of
           Inl p \<Rightarrow> (Inl p, tr @ [Branch True])
         | Inr b \<Rightarrow>
             let outOfRange = ConstantTimeLessOrEq (uint padLen) i;
                 equal = ConstantTimeByteEq padLen b
             in Unpad_loop h buf padLen toCheck (i + 1)
                  (good AND ConstantTimeSelect outOfRange 1 equal)
                  (tr @ [Branch True, Load (ptr buf + nat (int (len buf) - 1 - i))]))
      else (Inr good, tr @ [Branch False]))"
  by pat_completeness auto
termination
  by (relation "measure (\<lambda>(h, buf, padLen, toCheck, i, good, tr). nat (toCheck - i))") auto

text \<open>
  Lines 39 to 54: the padding length, the number of bytes to check, the loop and the
  two range checks. The result is the accumulator \<open>good\<close>.
  \<^verbatim>\<open>
  padLen := buf[len(buf)-1]
  toCheck := 255
  good := 1
  if toCheck > len(buf) {
          toCheck = len(buf)
  }
  for ... { ... }
  good &= subtle.ConstantTimeLessOrEq(1, int(padLen))
  good &= subtle.ConstantTimeLessOrEq(int(padLen), len(buf))
  \<close>
\<close>

definition Unpad_check :: "heap \<Rightarrow> slice \<Rightarrow> (panic + byte \<times> int) \<times> event list" where
  "Unpad_check h buf =
     (case index h buf (int (len buf) - 1) of
        Inl p \<Rightarrow> (Inl p, [])
      | Inr padLen \<Rightarrow>
          let toCheck = 255;
              good = 1;
              tr = [Load (ptr buf + nat (int (len buf) - 1)), Branch (toCheck > int (len buf))];
              toCheck = (if toCheck > int (len buf) then int (len buf) else toCheck)
          in case Unpad_loop h buf padLen toCheck 0 good tr of
               (Inl p, tr) \<Rightarrow> (Inl p, tr)
             | (Inr good, tr) \<Rightarrow>
                 let good = good AND ConstantTimeLessOrEq 1 (uint padLen);
                     good = good AND ConstantTimeLessOrEq (uint padLen) (int (len buf))
                 in (Inr (padLen, good), tr))"

text \<open>
  The whole function:
  \<^verbatim>\<open>
  func Unpad(buf []byte) ([]byte, error) {
          if len(buf) == 0 {
                  return nil, errPKCS7Padding
          }
          ...
          if good != 1 {
                  return nil, errPKCS7Padding
          }
          return buf[:len(buf)-int(padLen)], nil
  }
  \<close>
\<close>

definition Unpad_obs ::
  "heap \<Rightarrow> slice \<Rightarrow> (panic + slice \<times> error option) \<times> event list" where
  "Unpad_obs h buf =
     (if len buf = 0 then (Inr (nil, Some errPKCS7Padding), [Branch True])
      else
        case Unpad_check h buf of
          (Inl p, tr) \<Rightarrow> (Inl p, Branch False # tr)
        | (Inr (padLen, good), tr) \<Rightarrow>
            if good \<noteq> 1 then (Inr (nil, Some errPKCS7Padding), Branch False # tr @ [Branch True])
            else
              (case slice_to buf (int (len buf) - uint padLen) of
                 Inl p \<Rightarrow> (Inl p, Branch False # tr @ [Branch False])
               | Inr s \<Rightarrow> (Inr (s, None), Branch False # tr @ [Branch False])))"

definition Unpad :: "heap \<Rightarrow> slice \<Rightarrow> panic + slice \<times> error option" where
  "Unpad h buf = fst (Unpad_obs h buf)"

definition Unpad_trace :: "heap \<Rightarrow> slice \<Rightarrow> event list" where
  "Unpad_trace h buf = snd (Unpad_obs h buf)"

subsection \<open>Vocabulary of the statements\<close>

text \<open>Position \<open>j\<close> from the end passes the check of the loop body: it lies beyond the
  claimed padding or holds the padding byte.\<close>

definition agrees :: "heap \<Rightarrow> slice \<Rightarrow> byte \<Rightarrow> int \<Rightarrow> bool" where
  "agrees h buf padLen j \<longleftrightarrow>
     uint padLen \<le> j \<or> cells h (ptr buf + nat (int (len buf) - 1 - j)) = padLen"

text \<open>What the loop lets an observer see from iteration \<open>i\<close> on: per iteration the taken
  loop test and the address read, then the failed loop test.\<close>

definition loop_events :: "slice \<Rightarrow> int \<Rightarrow> int \<Rightarrow> event list" where
  "loop_events buf i toCheck =
     concat (map (\<lambda>j. [Branch True, Load (ptr buf + nat (int (len buf) - 1 - j))]) [i..toCheck - 1])
     @ [Branch False]"

text \<open>The last byte of a slice, and the bound of the loop.\<close>

definition padLen_of :: "heap \<Rightarrow> slice \<Rightarrow> byte" where
  "padLen_of h buf = cells h (ptr buf + (len buf - 1))"

definition toCheck_of :: "slice \<Rightarrow> int" where
  "toCheck_of buf = min 255 (int (len buf))"

text \<open>The accumulator after the loop and after the two range checks, and the events of
  lines 39 to 54.\<close>

definition loop_good :: "heap \<Rightarrow> slice \<Rightarrow> int" where
  "loop_good h buf =
     (if \<forall>j. 0 \<le> j \<and> j < toCheck_of buf \<longrightarrow> agrees h buf (padLen_of h buf) j then 1 else 0)"

definition final_good :: "heap \<Rightarrow> slice \<Rightarrow> int" where
  "final_good h buf =
     (loop_good h buf AND ConstantTimeLessOrEq 1 (uint (padLen_of h buf)))
       AND ConstantTimeLessOrEq (uint (padLen_of h buf)) (int (len buf))"

definition check_events :: "slice \<Rightarrow> event list" where
  "check_events buf =
     [Load (ptr buf + (len buf - 1)), Branch (255 > int (len buf))]
     @ loop_events buf 0 (toCheck_of buf)"

text \<open>The bytes under inspection agree with the last byte, which is not zero.\<close>

definition padding_ok :: "heap \<Rightarrow> slice \<Rightarrow> bool" where
  "padding_ok h buf \<longleftrightarrow>
     (\<forall>j. 0 \<le> j \<and> j < toCheck_of buf \<longrightarrow> agrees h buf (padLen_of h buf) j)
     \<and> 1 \<le> uint (padLen_of h buf)"

text \<open>
  Well-formed padding in the words of the specification, on the list of bytes of a
  buffer: some count \<open>c\<close> between 1 and \<open>min 255 (length B)\<close> is the value of the last
  byte and of each of the last \<open>c\<close> bytes.
\<close>

definition pkcs7_padded :: "byte list \<Rightarrow> bool" where
  "pkcs7_padded B \<longleftrightarrow>
     (\<exists>c\<in>{1..min 255 (length B)}.
        last B = of_nat c \<and> (\<forall>x\<in>set (drop (length B - c) B). x = of_nat c))"

text \<open>The number \<open>i\<close> that \<open>Pad\<close> computes and the bytes it appends.\<close>

definition padCount :: "slice \<Rightarrow> int \<Rightarrow> int" where
  "padCount buf sz = sz - (int (len buf) mod sz)"

definition padding :: "slice \<Rightarrow> int \<Rightarrow> byte list" where
  "padding buf sz = replicate (nat (padCount buf sz)) (word_of_int (padCount buf sz))"

text \<open>
  The four error conditions of the specification: empty buffer, last byte zero, last
  byte larger than the length, or one of the last \<open>padValue\<close> bytes different from it.
\<close>

definition bad_padding :: "byte list \<Rightarrow> bool" where
  "bad_padding B \<longleftrightarrow>
     B = [] \<or> last B = 0 \<or> length B < unat (last B)
     \<or> (\<exists>x\<in>set (drop (length B - unat (last B)) B). x \<noteq> last B)"

section \<open>Lemmas\<close>

text \<open>The loop equation is unfolded by hand, one iteration at a time.\<close>

declare Unpad_loop.simps [simp del]

subsection \<open>The primitives compute selection, equality and comparison\<close>

lemma ConstantTimeSelect_1: "ConstantTimeSelect 1 x y = x"
  by (simp add: ConstantTimeSelect_def)

lemma ConstantTimeSelect_0: "ConstantTimeSelect 0 x y = y"
  by (simp add: ConstantTimeSelect_def)

lemma xor_zero_byte: "x XOR y = 0 \<Longrightarrow> x = (y::byte)"
proof -
  assume a: "x XOR y = 0"
  have "x = (x XOR y) XOR y" by (simp add: xor.assoc)
  then show "x = y" using a by simp
qed

lemma ConstantTimeByteEq_eq: "ConstantTimeByteEq x y = (if x = y then 1 else 0)"
proof (cases "x = y")
  case True
  then show ?thesis by (simp add: ConstantTimeByteEq_def)
next
  case False
  define z :: "32 word" where "z = ucast (x XOR y)"
  have "x XOR y \<noteq> 0" using False xor_zero_byte by blast
  then have nz: "uint z \<noteq> 0" unfolding z_def
    by (simp add: uint_up_ucast is_up uint_0_iff)
  have lt: "uint z < 256" unfolding z_def
    using uint_bounded [of "x XOR y"] by (simp add: uint_up_ucast is_up)
  have "0 \<le> uint z" by simp
  with nz have "1 \<le> uint z" by linarith
  then have "uint (z - 1) = uint z - 1"
    by (simp add: uint_sub_if')
  then have small: "uint (z - 1) < 2 ^ 31" using lt by simp
  have "uint (drop_bit 31 (z - 1)) = drop_bit 31 (take_bit 32 (uint (z - 1)))"
    by (simp add: unsigned_drop_bit_eq)
  also have "take_bit 32 (uint (z - 1)) = uint (z - 1)"
    using small by (simp add: take_bit_int_eq_self)
  also have "drop_bit 31 (uint (z - 1)) = 0"
    using small by (simp add: drop_bit_eq_div)
  finally have "uint (drop_bit 31 (z - 1)) = 0" .
  then show ?thesis using False by (simp add: ConstantTimeByteEq_def z_def)
qed

text \<open>The comparison is 0 or 1; the two range checks compare a byte with 1 and with
  a length.\<close>

lemma LessOrEq_eq: "ConstantTimeLessOrEq x y = (if x \<le> y then 1 else 0)"
  by (simp add: ConstantTimeLessOrEq_def)

lemma LessOrEq_01: "ConstantTimeLessOrEq x y = 0 \<or> ConstantTimeLessOrEq x y = 1"
  by (simp add: LessOrEq_eq)

lemma LessOrEq_1_byte: "ConstantTimeLessOrEq 1 (uint (p::byte)) = (if 1 \<le> uint p then 1 else 0)"
  by (rule LessOrEq_eq)

lemma LessOrEq_byte_len:
  "ConstantTimeLessOrEq (uint (p::byte)) (int n) = (if uint p \<le> int n then 1 else 0)"
  by (rule LessOrEq_eq)

lemma LessOrEq_byte_len_imp:
  assumes "ConstantTimeLessOrEq (uint (p::byte)) (int n) = 1"
  shows "uint p \<le> int n"
  using assms by (simp add: LessOrEq_eq split: if_splits)

lemma uint_byte_of_int: "0 \<le> k \<Longrightarrow> k < 256 \<Longrightarrow> uint (word_of_int k :: byte) = k"
  by (simp add: uint_word_of_int take_bit_int_eq_self)

lemma byte_of_nat_unat: "c \<le> 255 \<Longrightarrow> unat (of_nat c :: byte) = c"
  by (simp add: unat_of_nat)

subsection \<open>The loop\<close>

text \<open>One iteration conjoins the accumulator with the verdict on its position; the loop
  never indexes out of range, and its events depend on the slice header only.\<close>

lemma select_step:
  "ConstantTimeSelect (ConstantTimeLessOrEq (uint padLen) i) 1 (ConstantTimeByteEq padLen b)
   = (if uint padLen \<le> i \<or> padLen = b then 1 else 0)"
  by (simp add: LessOrEq_eq ConstantTimeByteEq_eq ConstantTimeSelect_1 ConstantTimeSelect_0)

lemma Unpad_loop_value:
  assumes "0 \<le> i" "toCheck \<le> int (len buf)" "good = 0 \<or> good = 1"
  shows "fst (Unpad_loop h buf padLen toCheck i good tr) =
         Inr (if good = 1 \<and> (\<forall>j. i \<le> j \<and> j < toCheck \<longrightarrow> agrees h buf padLen j) then 1 else 0)"
  using assms
proof (induction h buf padLen toCheck i good tr rule: Unpad_loop.induct)
  case (1 h buf padLen toCheck i good tr)
  show ?case
  proof (cases "i < toCheck")
    case False
    then show ?thesis using "1.prems"
      by (auto simp: Unpad_loop.simps [of h buf padLen toCheck i])
  next
    case True
    let ?b = "cells h (ptr buf + nat (int (len buf) - 1 - i))"
    let ?sel = "ConstantTimeSelect (ConstantTimeLessOrEq (uint padLen) i) 1 (ConstantTimeByteEq padLen ?b)"
    have idx: "index h buf (int (len buf) - 1 - i) = Inr ?b"
      using True "1.prems" by (simp add: index_def)
    have sel: "?sel = (if agrees h buf padLen i then 1 else 0)"
      by (auto simp: select_step agrees_def)
    have g: "good AND ?sel = (if good = 1 \<and> agrees h buf padLen i then 1 else 0)"
      using "1.prems"(3) by (auto simp: sel)
    have split: "(\<forall>j. i \<le> j \<and> j < toCheck \<longrightarrow> agrees h buf padLen j) \<longleftrightarrow>
                 agrees h buf padLen i \<and> (\<forall>j. i + 1 \<le> j \<and> j < toCheck \<longrightarrow> agrees h buf padLen j)"
      using True by (metis add1_zle_eq order_le_less)
    have "fst (Unpad_loop h buf padLen toCheck (i + 1) (good AND ?sel)
                (tr @ [Branch True, Load (ptr buf + nat (int (len buf) - 1 - i))])) =
          Inr (if (good AND ?sel) = 1 \<and> (\<forall>j. i + 1 \<le> j \<and> j < toCheck \<longrightarrow> agrees h buf padLen j) then 1 else 0)"
      using "1.IH" [OF True idx refl refl] "1.prems" g by auto
    then show ?thesis
      using True idx g split by (simp add: Unpad_loop.simps [of h buf padLen toCheck i])
  qed
qed

lemma Unpad_loop_trace:
  assumes "0 \<le> i" "toCheck \<le> int (len buf)"
  shows "snd (Unpad_loop h buf padLen toCheck i good tr) = tr @ loop_events buf i toCheck"
  using assms
proof (induction h buf padLen toCheck i good tr rule: Unpad_loop.induct)
  case (1 h buf padLen toCheck i good tr)
  show ?case
  proof (cases "i < toCheck")
    case False
    then show ?thesis
      by (simp add: Unpad_loop.simps [of h buf padLen toCheck i] loop_events_def)
  next
    case True
    let ?b = "cells h (ptr buf + nat (int (len buf) - 1 - i))"
    have idx: "index h buf (int (len buf) - 1 - i) = Inr ?b"
      using True "1.prems" by (simp add: index_def)
    have ev: "loop_events buf i toCheck =
              [Branch True, Load (ptr buf + nat (int (len buf) - 1 - i))] @ loop_events buf (i + 1) toCheck"
      using True by (simp add: loop_events_def upto_rec1 [of i])
    show ?thesis
      using True idx "1.IH" [OF True idx refl refl] "1.prems" ev
      by (simp add: Unpad_loop.simps [of h buf padLen toCheck i])
  qed
qed

subsection \<open>Unpad in closed form\<close>

lemma Unpad_loop_eq:
  assumes "0 < len buf"
  shows "Unpad_loop h buf (padLen_of h buf) (toCheck_of buf) 0 1 tr =
         (Inr (loop_good h buf), tr @ loop_events buf 0 (toCheck_of buf))"
proof -
  have "fst (Unpad_loop h buf (padLen_of h buf) (toCheck_of buf) 0 1 tr) = Inr (loop_good h buf)"
    by (subst Unpad_loop_value) (simp_all add: toCheck_of_def loop_good_def)
  moreover have "snd (Unpad_loop h buf (padLen_of h buf) (toCheck_of buf) 0 1 tr) =
                 tr @ loop_events buf 0 (toCheck_of buf)"
    by (rule Unpad_loop_trace) (simp_all add: toCheck_of_def)
  ultimately show ?thesis by (simp add: prod_eq_iff)
qed

lemma Unpad_check_eq:
  assumes "0 < len buf"
  shows "Unpad_check h buf = (Inr (padLen_of h buf, final_good h buf), check_events buf)"
proof -
  have idx: "index h buf (int (len buf) - 1) = Inr (padLen_of h buf)"
    using assms by (simp add: index_def padLen_of_def nat_diff_distrib')
  have tc: "(if 255 > int (len buf) then int (len buf) else 255) = toCheck_of buf"
    by (simp add: toCheck_of_def min_def)
  have ad: "nat (int (len buf) - 1) = len buf - 1"
    by (simp add: nat_diff_distrib')
  show ?thesis
    unfolding Unpad_check_def idx Let_def tc
    by (simp add: Unpad_loop_eq [OF assms] final_good_def check_events_def ad)
qed

lemma Unpad_check_empty: "len buf = 0 \<Longrightarrow> Unpad_check h buf = (Inl IndexOutOfRange, [])"
  by (simp add: Unpad_check_def index_def)

lemma final_good_eq:
  "final_good h buf =
     (if padding_ok h buf \<and> ConstantTimeLessOrEq (uint (padLen_of h buf)) (int (len buf)) = 1
      then 1 else 0)"
  using LessOrEq_01 [of "uint (padLen_of h buf)" "int (len buf)"]
  by (auto simp: final_good_def loop_good_def padding_ok_def LessOrEq_1_byte)

lemma Unpad_eq:
  assumes "0 < len buf"
  shows "Unpad h buf =
     (if final_good h buf \<noteq> 1 then Inr (nil, Some errPKCS7Padding)
      else case slice_to buf (int (len buf) - uint (padLen_of h buf)) of
             Inl q \<Rightarrow> Inl q
           | Inr s \<Rightarrow> Inr (s, None))"
  using assms
  by (simp add: Unpad_def Unpad_obs_def Unpad_check_eq split: sum.splits)

lemma Unpad_nil: "len buf = 0 \<Longrightarrow> Unpad h buf = Inr (nil, Some errPKCS7Padding)"
  by (simp add: Unpad_def Unpad_obs_def)

lemma Unpad_accept:
  assumes "0 < len buf" "len buf \<le> cap buf" "final_good h buf = 1"
  shows "Unpad h buf = Inr (buf\<lparr>len := len buf - unat (padLen_of h buf)\<rparr>, None)"
    and "unat (padLen_of h buf) \<le> len buf"
proof -
  have le: "uint (padLen_of h buf) \<le> int (len buf)"
    using assms(3) by (intro LessOrEq_byte_len_imp) (simp add: final_good_eq split: if_splits)
  have u: "uint (padLen_of h buf) = int (unat (padLen_of h buf))" by simp
  show "unat (padLen_of h buf) \<le> len buf" using le unfolding u by linarith
  have "nat (int (len buf) - uint (padLen_of h buf)) = len buf - unat (padLen_of h buf)"
    unfolding u by linarith
  then show "Unpad h buf = Inr (buf\<lparr>len := len buf - unat (padLen_of h buf)\<rparr>, None)"
    using assms le by (simp add: Unpad_eq slice_to_def)
qed

lemma Unpad_reject:
  assumes "final_good h buf \<noteq> 1"
  shows "Unpad h buf = Inr (nil, Some errPKCS7Padding)"
  using assms by (cases "len buf = 0") (simp_all add: Unpad_nil Unpad_eq)

lemma Unpad_error_iff:
  assumes "0 < len buf"
  shows "Unpad h buf = Inr (nil, Some errPKCS7Padding) \<longleftrightarrow> final_good h buf \<noteq> 1"
  using assms by (auto simp: Unpad_eq split: sum.splits)

lemma Unpad_trace_eq:
  "Unpad_trace h buf =
     (if len buf = 0 then [Branch True]
      else Branch False # check_events buf @ [Branch (final_good h buf \<noteq> 1)])"
  by (simp add: Unpad_trace_def Unpad_obs_def Unpad_check_eq split: sum.splits)

subsection \<open>The observable events\<close>

text \<open>
  The events record the source's \<open>if\<close> and \<open>for\<close> tests and its index expressions; the
  calls into \<open>crypto/subtle\<close> are taken to add none. Under that reading lines 39 to 54
  show an observer the slice header only: one read of the last byte, the test
  \<open>toCheck > len(buf)\<close>, then \<open>min 255 (len buf)\<close> iterations, each with the taken loop
  test and the read of \<open>buf[len(buf)-1-i]\<close>, then the loop exit. The trace of the whole
  function adds the test for the empty buffer and the final test of \<open>good\<close>.
\<close>

lemma Unpad_check_events:
  "snd (Unpad_check h buf) = snd (Unpad_check h' buf)
   \<and> (0 < len buf \<longrightarrow>
        snd (Unpad_check h buf) =
          [Load (ptr buf + (len buf - 1)), Branch (255 > int (len buf))]
          @ concat (map (\<lambda>i. [Branch True, Load (ptr buf + nat (int (len buf) - 1 - i))])
                        [0..min 255 (int (len buf)) - 1])
          @ [Branch False])
   \<and> Unpad_trace h buf =
        (if len buf = 0 then [Branch True]
         else Branch False # snd (Unpad_check h buf)
              @ [Branch (Unpad h buf = Inr (nil, Some errPKCS7Padding))])"
proof (cases "len buf = 0")
  case True
  then show ?thesis by (simp add: Unpad_check_empty Unpad_trace_eq)
next
  case False
  then have pos: "0 < len buf" by simp
  show ?thesis
    using pos False
    by (simp add: Unpad_check_eq Unpad_trace_eq Unpad_error_iff check_events_def
        loop_events_def toCheck_of_def)
qed

subsection \<open>The bytes of a slice and the padding predicates\<close>

lemma length_bytes_of [simp]: "length (bytes_of h s) = len s"
  by (simp add: bytes_of_def)

lemma nth_bytes_of [simp]: "k < len s \<Longrightarrow> bytes_of h s ! k = cells h (ptr s + k)"
  by (simp add: bytes_of_def)

lemma last_bytes_of: "0 < len s \<Longrightarrow> last (bytes_of h s) = padLen_of h s"
  by (simp add: last_conv_nth padLen_of_def flip: length_0_conv)

lemma bytes_of_len_update:
  "k \<le> len s \<Longrightarrow> bytes_of h (s\<lparr>len := k\<rparr>) = take k (bytes_of h s)"
  by (simp add: bytes_of_def take_map)

lemma bytes_of_const:
  "cells h = (\<lambda>a. x) \<Longrightarrow> bytes_of h s = replicate (len s) x"
  by (simp add: bytes_of_def map_replicate_const)

lemma all_set_drop:
  "(\<forall>x\<in>set (drop m xs). P x) \<longleftrightarrow> (\<forall>k. m \<le> k \<and> k < length xs \<longrightarrow> P (xs ! k))"
proof
  assume a: "\<forall>x\<in>set (drop m xs). P x"
  show "\<forall>k. m \<le> k \<and> k < length xs \<longrightarrow> P (xs ! k)"
  proof (intro allI impI)
    fix k assume k: "m \<le> k \<and> k < length xs"
    then have "drop m xs ! (k - m) = xs ! k" "k - m < length (drop m xs)" by auto
    then have "xs ! k \<in> set (drop m xs)" by (metis nth_mem)
    with a show "P (xs ! k)" by blast
  qed
next
  assume a: "\<forall>k. m \<le> k \<and> k < length xs \<longrightarrow> P (xs ! k)"
  show "\<forall>x\<in>set (drop m xs). P x"
  proof
    fix x assume "x \<in> set (drop m xs)"
    then obtain i where i: "i < length (drop m xs)" "drop m xs ! i = x"
      by (auto simp: in_set_conv_nth)
    then have "xs ! (m + i) = x" "m + i < length xs" by simp_all
    with a show "P x" by (metis le_add1)
  qed
qed

lemma not_padded_Nil: "\<not> pkcs7_padded []"
  by (simp add: pkcs7_padded_def)

lemma padded_append:
  assumes "1 \<le> c" "c \<le> 255"
  shows "pkcs7_padded (B @ replicate c (of_nat c))"
  unfolding pkcs7_padded_def
  using assms by (intro bexI [of _ c]) auto

lemma bad_padding_iff: "bad_padding B \<longleftrightarrow> \<not> pkcs7_padded B"
proof (cases "B = []")
  case True
  then show ?thesis by (simp add: bad_padding_def not_padded_Nil)
next
  case False
  let ?c = "unat (last B)"
  have c255: "?c \<le> 255" using unsigned_less [of "last B", where 'a = nat] by simp
  have z: "last B = 0 \<longleftrightarrow> ?c = 0" by (simp add: unat_eq_0)
  have "pkcs7_padded B \<longleftrightarrow>
        1 \<le> ?c \<and> ?c \<le> length B \<and> (\<forall>x\<in>set (drop (length B - ?c) B). x = last B)"
  proof
    assume "pkcs7_padded B"
    then obtain c where c: "1 \<le> c" "c \<le> 255" "c \<le> length B" "last B = of_nat c"
      and all: "\<forall>x\<in>set (drop (length B - c) B). x = of_nat c"
      unfolding pkcs7_padded_def by auto
    have "?c = c" unfolding c(4) using c(2) by (rule byte_of_nat_unat)
    then show "1 \<le> ?c \<and> ?c \<le> length B \<and> (\<forall>x\<in>set (drop (length B - ?c) B). x = last B)"
      using c all by simp
  next
    assume a: "1 \<le> ?c \<and> ?c \<le> length B \<and> (\<forall>x\<in>set (drop (length B - ?c) B). x = last B)"
    then show "pkcs7_padded B"
      unfolding pkcs7_padded_def using c255 by (intro bexI [of _ ?c]) simp_all
  qed
  then show ?thesis using False z by (auto simp: bad_padding_def)
qed

text \<open>What the loop and the two range checks establish is the padding predicate of
  the specification.\<close>

lemma padding_ok_iff:
  assumes "0 < len buf"
  shows "padding_ok h buf \<and> uint (padLen_of h buf) \<le> int (len buf)
         \<longleftrightarrow> pkcs7_padded (bytes_of h buf)"
proof
  let ?p = "padLen_of h buf" and ?n = "len buf" and ?B = "bytes_of h buf"
  have u: "uint ?p = int (unat ?p)" by simp
  have p255: "unat ?p \<le> 255" using unsigned_less [of ?p, where 'a = nat] by simp
  assume a: "padding_ok h buf \<and> uint ?p \<le> int ?n"
  then have c1: "1 \<le> unat ?p" and cn: "unat ?p \<le> ?n"
    unfolding padding_ok_def u by linarith+
  have "?B ! k = ?p" if k: "?n - unat ?p \<le> k" "k < ?n" for k
  proof -
    let ?j = "int ?n - 1 - int k"
    have "0 \<le> ?j" "?j < toCheck_of buf" "\<not> uint ?p \<le> ?j"
      using k cn p255 unfolding u toCheck_of_def by linarith+
    then have "cells h (ptr buf + nat (int ?n - 1 - ?j)) = ?p"
      using a unfolding padding_ok_def agrees_def by blast
    then show ?thesis using k by simp
  qed
  then have "\<forall>x\<in>set (drop (?n - unat ?p) ?B). x = of_nat (unat ?p)"
    by (simp add: all_set_drop)
  moreover have "last ?B = of_nat (unat ?p)"
    using assms by (simp add: last_bytes_of)
  moreover have "unat ?p \<in> {1..min 255 (length ?B)}"
    using c1 cn p255 by simp
  ultimately show "pkcs7_padded ?B"
    unfolding pkcs7_padded_def by (intro bexI [of _ "unat ?p"]) simp_all
next
  let ?p = "padLen_of h buf" and ?n = "len buf" and ?B = "bytes_of h buf"
  assume "pkcs7_padded ?B"
  then obtain c where c: "1 \<le> c" "c \<le> 255" "c \<le> ?n" "last ?B = of_nat c"
      and all: "\<forall>k. ?n - c \<le> k \<and> k < ?n \<longrightarrow> ?B ! k = of_nat c"
    unfolding pkcs7_padded_def by (auto simp: all_set_drop)
  have p: "?p = of_nat c" using c(4) assms by (simp add: last_bytes_of)
  have up: "unat ?p = c" unfolding p using c(2) by (rule byte_of_nat_unat)
  have u: "uint ?p = int c" using up by (metis uint_nat)
  have "agrees h buf ?p j" if j: "0 \<le> j" "j < toCheck_of buf" for j
  proof (cases "int c \<le> j")
    case True
    then show ?thesis by (simp add: agrees_def u)
  next
    case False
    let ?k = "nat (int ?n - 1 - j)"
    have "?n - c \<le> ?k" "?k < ?n" using False j c by linarith+
    then have "?B ! ?k = ?p" using all p by simp
    moreover have "?B ! ?k = cells h (ptr buf + ?k)" using \<open>?k < ?n\<close> by simp
    ultimately show ?thesis by (simp add: agrees_def)
  qed
  then show "padding_ok h buf \<and> uint ?p \<le> int ?n"
    using c unfolding padding_ok_def u by simp
qed

subsection \<open>What Unpad accepts\<close>

text \<open>A buffer that \<open>Unpad\<close> accepts is well padded, and on a slice whose length is at
  most its capacity \<open>Unpad\<close> returns the view without the padding if the buffer is well
  padded and the padding error otherwise.\<close>

lemma Unpad_success_padded:
  assumes "Unpad h buf = Inr (s, None)"
  shows "pkcs7_padded (bytes_of h buf)"
    and "s = buf\<lparr>len := len buf - unat (padLen_of h buf)\<rparr>"
    and "unat (padLen_of h buf) \<le> len buf"
proof -
  have pos: "0 < len buf" using assms by (cases "len buf = 0") (simp_all add: Unpad_nil)
  have good: "final_good h buf = 1"
    using assms pos by (auto simp: Unpad_eq split: if_splits)
  then have ok: "padding_ok h buf"
    and le: "uint (padLen_of h buf) \<le> int (len buf)"
    by (auto simp: final_good_eq split: if_splits intro: LessOrEq_byte_len_imp)
  then show "pkcs7_padded (bytes_of h buf)" using padding_ok_iff [OF pos] by blast
  have u: "uint (padLen_of h buf) = int (unat (padLen_of h buf))" by simp
  show "unat (padLen_of h buf) \<le> len buf" using le unfolding u by linarith
  have "nat (int (len buf) - uint (padLen_of h buf)) = len buf - unat (padLen_of h buf)"
    unfolding u by linarith
  then show "s = buf\<lparr>len := len buf - unat (padLen_of h buf)\<rparr>"
    using assms pos good by (auto simp: Unpad_eq slice_to_def split: if_splits)
qed

lemma Unpad_closed:
  assumes "len buf \<le> cap buf"
  shows "Unpad h buf =
     (if pkcs7_padded (bytes_of h buf)
      then Inr (buf\<lparr>len := len buf - unat (last (bytes_of h buf))\<rparr>, None)
      else Inr (nil, Some errPKCS7Padding))"
proof (cases "len buf = 0")
  case True
  then have "bytes_of h buf = []" by (simp add: bytes_of_def)
  then show ?thesis using True by (simp add: Unpad_nil not_padded_Nil)
next
  case False
  then have pos: "0 < len buf" by simp
  have fg: "final_good h buf = (if pkcs7_padded (bytes_of h buf) then 1 else 0)"
    using padding_ok_iff [OF pos, of h]
    by (auto simp: final_good_eq LessOrEq_byte_len)
  show ?thesis
  proof (cases "pkcs7_padded (bytes_of h buf)")
    case True
    then show ?thesis
      using Unpad_accept(1) [OF pos assms, of h] fg pos by (simp add: last_bytes_of)
  next
    case False
    then show ?thesis using Unpad_reject [of h buf] fg by simp
  qed
qed

subsection \<open>Pad and append\<close>

lemma padCount_range:
  assumes "1 \<le> sz"
  shows "1 \<le> padCount buf sz" "padCount buf sz \<le> sz"
proof -
  have "0 \<le> int (len buf) mod sz" "int (len buf) mod sz < sz"
    using assms by simp_all
  then show "1 \<le> padCount buf sz" "padCount buf sz \<le> sz"
    by (simp_all add: padCount_def)
qed

lemma concat_replicate_single: "concat (replicate n [x]) = replicate n x"
  by (induction n) simp_all

lemma Pad_eq:
  assumes "1 \<le> sz" "sz \<le> 255"
  shows "Pad h buf sz = Inr (append_bytes h buf (padding buf sz))"
  using assms padCount_range [OF assms(1), of buf]
  by (simp add: Pad_def bytes_Repeat_def padding_def padCount_def concat_replicate_single)

lemma Pad_panic:
  assumes "sz < 1 \<or> sz > 255"
  shows "Pad h buf sz = Inl (InappropriateBlockSize sz)"
  using assms by (auto simp: Pad_def)

lemma append_bytes_props:
  assumes "append_bytes h s xs = (s', h')"
  shows "bytes_of h' s' = bytes_of h s @ xs"
    and "len s' = len s + length xs"
    and "len s' \<le> cap s'"
proof -
  show l: "len s' = len s + length xs" and "len s' \<le> cap s'"
    using assms by (auto simp: append_bytes_def Let_def split: if_splits)
  show "bytes_of h' s' = bytes_of h s @ xs"
  proof (rule nth_equalityI)
    show "length (bytes_of h' s') = length (bytes_of h s @ xs)" using l by simp
  next
    fix i assume "i < length (bytes_of h' s')"
    then have i: "i < len s + length xs" using l by simp
    show "bytes_of h' s' ! i = (bytes_of h s @ xs) ! i"
    proof (cases "len s + length xs \<le> cap s")
      case True
      then have "s' = s\<lparr>len := len s + length xs\<rparr>"
          "cells h' = store (cells h) (ptr s + len s) xs"
        using assms by (auto simp: append_bytes_def Let_def)
      then show ?thesis using i by (auto simp: store_def nth_append)
    next
      case False
      then have "ptr s' = brk h" "len s' = len s + length xs"
        and "cells h' = store (cells h) (brk h)
               (bytes_of h s @ xs @ replicate (max (len s + length xs) (growcap h (cap s) (len s + length xs)) - (len s + length xs)) 0)"
        using assms by (auto simp: append_bytes_def Let_def)
      then show ?thesis using i by (auto simp: store_def nth_append)
    qed
  qed
qed

lemma padding_eq:
  assumes "1 \<le> sz"
  shows "padding buf sz = replicate (nat (padCount buf sz)) (of_nat (nat (padCount buf sz)))"
  using padCount_range [OF assms, of buf] by (simp add: padding_def)

text \<open>The padded length is the least multiple of the block size above the length.\<close>

lemma multiple_gap:
  fixes x sz :: int
  assumes "0 < x" "x mod sz = 0" "0 < sz"
  shows "sz \<le> x"
proof (rule ccontr)
  assume "\<not> sz \<le> x"
  then have "x mod sz = x" using assms(1) by (simp add: mod_pos_pos_trivial)
  then show False using assms by simp
qed

lemma padded_length_mod:
  fixes n sz :: int
  shows "(n + (sz - n mod sz)) mod sz = 0"
proof -
  have "n - n mod sz = sz * (n div sz)" by (simp add: minus_mod_eq_mult_div)
  then have "n + (sz - n mod sz) = sz * (n div sz) + sz" by linarith
  also have "\<dots> = sz * (n div sz + 1)" by (simp add: algebra_simps)
  finally show ?thesis by (simp only: mod_mult_self1_is_0)
qed

lemma padded_length_least:
  fixes n sz m :: int
  assumes "0 < sz" "m mod sz = 0" "n + 1 \<le> m"
  shows "n + (sz - n mod sz) \<le> m"
proof (rule ccontr)
  let ?L = "n + (sz - n mod sz)"
  assume "\<not> ?L \<le> m"
  then have pos: "0 < ?L - m" by simp
  have "(?L - m) mod sz = (?L mod sz - m mod sz) mod sz" by (rule mod_diff_eq [symmetric])
  then have "(?L - m) mod sz = 0" using assms(2) by (simp add: padded_length_mod)
  then have "sz \<le> ?L - m" using pos assms(1) by (intro multiple_gap)
  moreover have "0 \<le> n mod sz" using assms(1) by simp
  ultimately show False using assms(3) by linarith
qed

subsection \<open>The round trip\<close>

text \<open>\<open>Unpad\<close> undoes \<open>Pad\<close>: the padded buffer is well padded by the count that
  \<open>Pad\<close> appended, and \<open>append\<close> returns a slice within its capacity.\<close>

lemma Unpad_after_Pad:
  assumes "1 \<le> sz" "sz \<le> 255" "Pad h buf sz = Inr (s', h')"
  shows "Unpad h' s' = Inr (s'\<lparr>len := len buf\<rparr>, None)"
    and "bytes_of h' (s'\<lparr>len := len buf\<rparr>) = bytes_of h buf"
proof -
  let ?c = "nat (padCount buf sz)"
  have c: "1 \<le> ?c" "?c \<le> 255"
    using padCount_range [OF assms(1), of buf] assms(2) by linarith+
  have app: "append_bytes h buf (padding buf sz) = (s', h')"
    using assms by (simp add: Pad_eq)
  have B: "bytes_of h' s' = bytes_of h buf @ replicate ?c (of_nat ?c)"
    and l: "len s' = len buf + ?c" and lc: "len s' \<le> cap s'"
    using append_bytes_props [OF app] by (simp_all add: padding_eq [OF assms(1)])
  have "pkcs7_padded (bytes_of h' s')" unfolding B using c by (rule padded_append)
  moreover have "last (bytes_of h' s') = of_nat ?c" unfolding B using c by simp
  moreover have "unat (of_nat ?c :: byte) = ?c" using c by (intro byte_of_nat_unat)
  ultimately show "Unpad h' s' = Inr (s'\<lparr>len := len buf\<rparr>, None)"
    using lc l by (simp add: Unpad_closed)
  show "bytes_of h' (s'\<lparr>len := len buf\<rparr>) = bytes_of h buf"
    using l by (simp add: bytes_of_len_update B)
qed

subsection \<open>The examples of the specification\<close>

text \<open>The acceptance example and the four rejections of section 8 of the
  specification, run on the embedding: the buffers \<open>[0x41, 0x42, 2, 2]\<close>, the empty
  buffer, a buffer ending in 0, \<open>[5]\<close> and \<open>[1, 2, 3, 2]\<close>.\<close>

lemma example_accept:
  "Unpad \<lparr>cells = (\<lambda>a. if a = 7 then 0x41 else if a = 8 then 0x42 else 2), brk = 16, growcap = (\<lambda>c n. n)\<rparr>
         \<lparr>ptr = 7, len = 4, cap = 8\<rparr> = Inr (\<lparr>ptr = 7, len = 2, cap = 8\<rparr>, None)"
  and "bytes_of \<lparr>cells = (\<lambda>a. if a = 7 then 0x41 else if a = 8 then 0x42 else 2), brk = 16, growcap = (\<lambda>c n. n)\<rparr>
         \<lparr>ptr = 7, len = 4, cap = 8\<rparr> = [0x41, 0x42, 2, 2]"
  and "bytes_of \<lparr>cells = (\<lambda>a. if a = 7 then 0x41 else if a = 8 then 0x42 else 2), brk = 16, growcap = (\<lambda>c n. n)\<rparr>
         \<lparr>ptr = 7, len = 2, cap = 8\<rparr> = [0x41, 0x42]"
  by code_simp+

lemma example_empty:
  "Unpad h \<lparr>ptr = 7, len = 0, cap = 8\<rparr> = Inr (nil, Some errPKCS7Padding)"
  by (simp add: Unpad_nil)

lemma example_zero:
  "bytes_of \<lparr>cells = (\<lambda>a. if a = 9 then 0 else 0x41), brk = 16, growcap = (\<lambda>c n. n)\<rparr>
         \<lparr>ptr = 7, len = 3, cap = 8\<rparr> = [0x41, 0x41, 0]"
  and "Unpad \<lparr>cells = (\<lambda>a. if a = 9 then 0 else 0x41), brk = 16, growcap = (\<lambda>c n. n)\<rparr>
         \<lparr>ptr = 7, len = 3, cap = 8\<rparr> = Inr (nil, Some errPKCS7Padding)"
  by code_simp+

lemma example_oversized:
  "bytes_of \<lparr>cells = (\<lambda>a. 5), brk = 16, growcap = (\<lambda>c n. n)\<rparr> \<lparr>ptr = 7, len = 1, cap = 8\<rparr> = [5]"
  and "Unpad \<lparr>cells = (\<lambda>a. 5), brk = 16, growcap = (\<lambda>c n. n)\<rparr> \<lparr>ptr = 7, len = 1, cap = 8\<rparr>
       = Inr (nil, Some errPKCS7Padding)"
  by code_simp+

lemma example_inconsistent:
  "bytes_of \<lparr>cells = (\<lambda>a. if a = 7 then 1 else if a = 9 then 3 else 2), brk = 16, growcap = (\<lambda>c n. n)\<rparr>
         \<lparr>ptr = 7, len = 4, cap = 8\<rparr> = [1, 2, 3, 2]"
  and "Unpad \<lparr>cells = (\<lambda>a. if a = 7 then 1 else if a = 9 then 3 else 2), brk = 16, growcap = (\<lambda>c n. n)\<rparr>
         \<lparr>ptr = 7, len = 4, cap = 8\<rparr> = Inr (nil, Some errPKCS7Padding)"
  by code_simp+

section \<open>The claims\<close>

text \<open>
  \<^bold>\<open>C1\<close> (round trip). For every buffer, the empty one included, and every block size
  from 1 to 255: \<open>Pad\<close> returns a slice, \<open>Unpad\<close> of that slice succeeds, and the slice
  it returns has the length and the bytes of the buffer.
\<close>

theorem Unpad_Pad_roundtrip:
  assumes "1 \<le> sz" "sz \<le> 255"
  shows "\<exists>s' h'. Pad h buf sz = Inr (s', h')
           \<and> Unpad h' s' = Inr (s'\<lparr>len := len buf\<rparr>, None)
           \<and> bytes_of h' (s'\<lparr>len := len buf\<rparr>) = bytes_of h buf"
proof -
  obtain s' h' where P: "Pad h buf sz = Inr (s', h')"
    using assms by (cases "append_bytes h buf (padding buf sz)") (simp add: Pad_eq)
  from Unpad_after_Pad [OF assms P] P show ?thesis by blast
qed

theorem Unpad_Pad_roundtrip_witness:
  "(1::int) \<le> 16 \<and> (16::int) \<le> 255
   \<and> (\<exists>s' h'. Pad \<lparr>cells = (\<lambda>a. 0x41), brk = 16, growcap = (\<lambda>c n. 2 * n)\<rparr> nil 16 = Inr (s', h')
              \<and> Unpad h' s' = Inr (s'\<lparr>len := 0\<rparr>, None)
              \<and> bytes_of h' (s'\<lparr>len := 0\<rparr>) = [])
   \<and> (1::int) \<le> 4 \<and> (4::int) \<le> 255
   \<and> (\<exists>s' h'. Pad \<lparr>cells = (\<lambda>a. 0x41), brk = 16, growcap = (\<lambda>c n. 2 * n)\<rparr> \<lparr>ptr = 3, len = 4, cap = 4\<rparr> 4 = Inr (s', h')
              \<and> Unpad h' s' = Inr (s'\<lparr>len := 4\<rparr>, None)
              \<and> bytes_of h' (s'\<lparr>len := 4\<rparr>) = replicate 4 0x41)"
  using Unpad_Pad_roundtrip [of 16 "\<lparr>cells = (\<lambda>a. 0x41), brk = 16, growcap = (\<lambda>c n. 2 * n)\<rparr>" nil]
        Unpad_Pad_roundtrip [of 4 "\<lparr>cells = (\<lambda>a. 0x41), brk = 16, growcap = (\<lambda>c n. 2 * n)\<rparr>" "\<lparr>ptr = 3, len = 4, cap = 4\<rparr>"]
  by (simp add: nil_def bytes_of_const)

text \<open>
  \<^bold>\<open>C2\<close> (accepted buffers). On every slice whose length is at most its capacity, as
  for every Go slice, \<open>Unpad\<close> succeeds if and only if some count \<open>c\<close> between 1 and
  \<open>min(255, n)\<close> is the value of the last byte and of each of the last \<open>c\<close> bytes, and
  it returns the padding error on every other buffer.
\<close>

theorem Unpad_accepts_iff_padded:
  assumes "len buf \<le> cap buf"
  shows "((\<exists>s. Unpad h buf = Inr (s, None)) \<longleftrightarrow> pkcs7_padded (bytes_of h buf))
         \<and> (\<not> pkcs7_padded (bytes_of h buf) \<longrightarrow> Unpad h buf = Inr (nil, Some errPKCS7Padding))"
  by (simp add: Unpad_closed [OF assms])

theorem Unpad_accepts_iff_padded_witness:
  "len \<lparr>ptr = 7, len = 4, cap = 8\<rparr> \<le> cap \<lparr>ptr = 7, len = 4, cap = 8\<rparr>
   \<and> pkcs7_padded (bytes_of \<lparr>cells = (\<lambda>a. if a = 7 then 0x41 else if a = 8 then 0x42 else 2), brk = 16, growcap = (\<lambda>c n. n)\<rparr> \<lparr>ptr = 7, len = 4, cap = 8\<rparr>)
   \<and> (\<exists>s. Unpad \<lparr>cells = (\<lambda>a. if a = 7 then 0x41 else if a = 8 then 0x42 else 2), brk = 16, growcap = (\<lambda>c n. n)\<rparr> \<lparr>ptr = 7, len = 4, cap = 8\<rparr> = Inr (s, None))
   \<and> \<not> pkcs7_padded (bytes_of \<lparr>cells = (\<lambda>a. if a = 7 then 1 else if a = 9 then 3 else 2), brk = 16, growcap = (\<lambda>c n. n)\<rparr> \<lparr>ptr = 7, len = 4, cap = 8\<rparr>)
   \<and> Unpad \<lparr>cells = (\<lambda>a. if a = 7 then 1 else if a = 9 then 3 else 2), brk = 16, growcap = (\<lambda>c n. n)\<rparr> \<lparr>ptr = 7, len = 4, cap = 8\<rparr> = Inr (nil, Some errPKCS7Padding)"
proof -
  have le: "len \<lparr>ptr = 7, len = 4, cap = 8\<rparr> \<le> cap \<lparr>ptr = 7, len = 4, cap = 8\<rparr>" by simp
  have "\<not> bad_padding (bytes_of \<lparr>cells = (\<lambda>a. if a = 7 then 0x41 else if a = 8 then 0x42 else 2), brk = 16, growcap = (\<lambda>c n. n)\<rparr> \<lparr>ptr = 7, len = 4, cap = 8\<rparr>)" by code_simp
  then have p: "pkcs7_padded (bytes_of \<lparr>cells = (\<lambda>a. if a = 7 then 0x41 else if a = 8 then 0x42 else 2), brk = 16, growcap = (\<lambda>c n. n)\<rparr> \<lparr>ptr = 7, len = 4, cap = 8\<rparr>)" by (simp add: bad_padding_iff)
  have "bad_padding (bytes_of \<lparr>cells = (\<lambda>a. if a = 7 then 1 else if a = 9 then 3 else 2), brk = 16, growcap = (\<lambda>c n. n)\<rparr> \<lparr>ptr = 7, len = 4, cap = 8\<rparr>)" by code_simp
  then have n: "\<not> pkcs7_padded (bytes_of \<lparr>cells = (\<lambda>a. if a = 7 then 1 else if a = 9 then 3 else 2), brk = 16, growcap = (\<lambda>c n. n)\<rparr> \<lparr>ptr = 7, len = 4, cap = 8\<rparr>)" by (simp add: bad_padding_iff)
  from Unpad_accepts_iff_padded [OF le, of "\<lparr>cells = (\<lambda>a. if a = 7 then 0x41 else if a = 8 then 0x42 else 2), brk = 16, growcap = (\<lambda>c n. n)\<rparr>"] p
  have "\<exists>s. Unpad \<lparr>cells = (\<lambda>a. if a = 7 then 0x41 else if a = 8 then 0x42 else 2), brk = 16, growcap = (\<lambda>c n. n)\<rparr> \<lparr>ptr = 7, len = 4, cap = 8\<rparr> = Inr (s, None)" by blast
  moreover from Unpad_accepts_iff_padded [OF le, of "\<lparr>cells = (\<lambda>a. if a = 7 then 1 else if a = 9 then 3 else 2), brk = 16, growcap = (\<lambda>c n. n)\<rparr>"] n
  have "Unpad \<lparr>cells = (\<lambda>a. if a = 7 then 1 else if a = 9 then 3 else 2), brk = 16, growcap = (\<lambda>c n. n)\<rparr> \<lparr>ptr = 7, len = 4, cap = 8\<rparr> = Inr (nil, Some errPKCS7Padding)" by blast
  ultimately show ?thesis using le p n by blast
qed

text \<open>
  \<^bold>\<open>C3\<close> (error conditions). \<open>Unpad\<close> returns an error exactly when the buffer is empty,
  its last byte is zero, its last byte exceeds its length, or one of its last
  \<open>padValue\<close> bytes differs from \<open>padValue\<close>; the error is always \<open>errPKCS7Padding\<close>; and
  on a slice whose length is at most its capacity every call either succeeds or returns
  that error.
\<close>

theorem Unpad_BadPadding_iff:
  "((\<exists>s e. Unpad h buf = Inr (s, Some e)) \<longleftrightarrow> bad_padding (bytes_of h buf))
   \<and> (\<forall>s e. Unpad h buf = Inr (s, Some e) \<longrightarrow> e = errPKCS7Padding)
   \<and> (len buf \<le> cap buf \<longrightarrow>
        (\<exists>s. Unpad h buf = Inr (s, None)) \<or> Unpad h buf = Inr (nil, Some errPKCS7Padding))"
proof (intro conjI allI impI)
  show "(\<exists>s e. Unpad h buf = Inr (s, Some e)) \<longleftrightarrow> bad_padding (bytes_of h buf)"
  proof (cases "len buf = 0")
    case True
    then have "bytes_of h buf = []" by (simp add: bytes_of_def)
    then show ?thesis using True by (simp add: Unpad_nil bad_padding_def)
  next
    case False
    then have pos: "0 < len buf" by simp
    have "final_good h buf = 1 \<longleftrightarrow> pkcs7_padded (bytes_of h buf)"
      using padding_ok_iff [OF pos, of h] by (auto simp: final_good_eq LessOrEq_byte_len)
    then show ?thesis
      using pos by (auto simp: Unpad_eq bad_padding_iff split: sum.splits)
  qed
next
  fix s e assume "Unpad h buf = Inr (s, Some e)"
  show "e = errPKCS7Padding" by (cases e) simp
next
  assume "len buf \<le> cap buf"
  then show "(\<exists>s. Unpad h buf = Inr (s, None)) \<or> Unpad h buf = Inr (nil, Some errPKCS7Padding)"
    by (simp add: Unpad_closed)
qed

theorem Unpad_BadPadding_iff_witness:
  "bad_padding (bytes_of \<lparr>cells = (\<lambda>a. 5), brk = 16, growcap = (\<lambda>c n. n)\<rparr> \<lparr>ptr = 7, len = 1, cap = 8\<rparr>)
   \<and> (\<exists>s e. Unpad \<lparr>cells = (\<lambda>a. 5), brk = 16, growcap = (\<lambda>c n. n)\<rparr> \<lparr>ptr = 7, len = 1, cap = 8\<rparr> = Inr (s, Some e))
   \<and> len \<lparr>ptr = 7, len = 1, cap = 8\<rparr> \<le> cap \<lparr>ptr = 7, len = 1, cap = 8\<rparr>
   \<and> \<not> bad_padding (bytes_of \<lparr>cells = (\<lambda>a. if a = 7 then 0x41 else if a = 8 then 0x42 else 2), brk = 16, growcap = (\<lambda>c n. n)\<rparr> \<lparr>ptr = 7, len = 4, cap = 8\<rparr>)
   \<and> \<not> (\<exists>s e. Unpad \<lparr>cells = (\<lambda>a. if a = 7 then 0x41 else if a = 8 then 0x42 else 2), brk = 16, growcap = (\<lambda>c n. n)\<rparr> \<lparr>ptr = 7, len = 4, cap = 8\<rparr> = Inr (s, Some e))"
proof -
  have b: "bad_padding (bytes_of \<lparr>cells = (\<lambda>a. 5), brk = 16, growcap = (\<lambda>c n. n)\<rparr> \<lparr>ptr = 7, len = 1, cap = 8\<rparr>)" by code_simp
  have n: "\<not> bad_padding (bytes_of \<lparr>cells = (\<lambda>a. if a = 7 then 0x41 else if a = 8 then 0x42 else 2), brk = 16, growcap = (\<lambda>c n. n)\<rparr> \<lparr>ptr = 7, len = 4, cap = 8\<rparr>)" by code_simp
  from Unpad_BadPadding_iff [of "\<lparr>cells = (\<lambda>a. 5), brk = 16, growcap = (\<lambda>c n. n)\<rparr>" "\<lparr>ptr = 7, len = 1, cap = 8\<rparr>"] b
  have "\<exists>s e. Unpad \<lparr>cells = (\<lambda>a. 5), brk = 16, growcap = (\<lambda>c n. n)\<rparr> \<lparr>ptr = 7, len = 1, cap = 8\<rparr> = Inr (s, Some e)" by blast
  moreover from Unpad_BadPadding_iff [of "\<lparr>cells = (\<lambda>a. if a = 7 then 0x41 else if a = 8 then 0x42 else 2), brk = 16, growcap = (\<lambda>c n. n)\<rparr>" "\<lparr>ptr = 7, len = 4, cap = 8\<rparr>"] n
  have "\<not> (\<exists>s e. Unpad \<lparr>cells = (\<lambda>a. if a = 7 then 0x41 else if a = 8 then 0x42 else 2), brk = 16, growcap = (\<lambda>c n. n)\<rparr> \<lparr>ptr = 7, len = 4, cap = 8\<rparr> = Inr (s, Some e))" by blast
  ultimately show ?thesis using b n by simp
qed

text \<open>
  \<^bold>\<open>C5\<close> (what Pad appends). For a block size from 1 to 255, \<open>Pad\<close> returns the bytes of
  the buffer followed by \<open>padCount = size - len(buf) mod size\<close> bytes of value \<open>padCount\<close>;
  \<open>padCount\<close> lies between 1 and \<open>size\<close> and fits a byte; when
  \<open>len(buf) mod size = 0\<close> that is \<open>size\<close> bytes of value \<open>size\<close>.
\<close>

theorem Pad_appends_padCount:
  assumes "1 \<le> sz" "sz \<le> 255"
  shows "\<exists>s' h'. Pad h buf sz = Inr (s', h')
           \<and> bytes_of h' s' = bytes_of h buf
                 @ replicate (nat (sz - int (len buf) mod sz)) (word_of_int (sz - int (len buf) mod sz))
           \<and> 1 \<le> sz - int (len buf) mod sz
           \<and> sz - int (len buf) mod sz \<le> sz
           \<and> uint (word_of_int (sz - int (len buf) mod sz) :: byte) = sz - int (len buf) mod sz
           \<and> (int (len buf) mod sz = 0 \<longrightarrow>
                 bytes_of h' s' = bytes_of h buf @ replicate (nat sz) (word_of_int sz))"
proof -
  let ?c = "sz - int (len buf) mod sz"
  obtain s' h' where app: "append_bytes h buf (padding buf sz) = (s', h')"
    by (cases "append_bytes h buf (padding buf sz)")
  have P: "Pad h buf sz = Inr (s', h')" using assms app by (simp add: Pad_eq)
  have B: "bytes_of h' s' = bytes_of h buf @ replicate (nat ?c) (word_of_int ?c)"
    using append_bytes_props(1) [OF app] by (simp add: padding_def padCount_def)
  have r: "1 \<le> ?c" "?c \<le> sz"
    using padCount_range [OF assms(1), of buf] by (simp_all add: padCount_def)
  then have "0 \<le> ?c" "?c < 256" using assms(2) by simp_all
  then have u: "uint (word_of_int ?c :: byte) = ?c"
    by (rule uint_byte_of_int)
  from P B r u show ?thesis by auto
qed

theorem Pad_appends_padCount_witness:
  "(1::int) \<le> 4 \<and> (4::int) \<le> 255
   \<and> (\<exists>s' h'. Pad \<lparr>cells = (\<lambda>a. 0x41), brk = 16, growcap = (\<lambda>c n. 2 * n)\<rparr>
                      \<lparr>ptr = 3, len = 4, cap = 4\<rparr> 4 = Inr (s', h')
              \<and> bytes_of h' s' = replicate 4 0x41 @ replicate 4 4)"
  using Pad_appends_padCount [of 4 "\<lparr>cells = (\<lambda>a. 0x41), brk = 16, growcap = (\<lambda>c n. 2 * n)\<rparr>"
               "\<lparr>ptr = 3, len = 4, cap = 4\<rparr>"]
  by (auto simp: bytes_of_const)

text \<open>
  \<^bold>\<open>C6\<close> (padded length). For a block size from 1 to 255 the length of \<open>Pad(buf, size)\<close>
  is a multiple of \<open>size\<close>, is larger than \<open>len(buf)\<close>, and is at most every multiple of
  \<open>size\<close> that is at least \<open>len(buf) + 1\<close>.
\<close>

theorem Pad_length_least_multiple:
  assumes "1 \<le> sz" "sz \<le> 255"
  shows "\<exists>s' h'. Pad h buf sz = Inr (s', h')
           \<and> int (len s') mod sz = 0
           \<and> len buf < len s'
           \<and> int (len buf) + 1 \<le> int (len s')
           \<and> (\<forall>m. m mod sz = 0 \<and> int (len buf) + 1 \<le> m \<longrightarrow> int (len s') \<le> m)"
proof -
  obtain s' h' where app: "append_bytes h buf (padding buf sz) = (s', h')"
    by (cases "append_bytes h buf (padding buf sz)")
  have P: "Pad h buf sz = Inr (s', h')" using assms app by (simp add: Pad_eq)
  have r: "1 \<le> padCount buf sz" using padCount_range [OF assms(1)] by simp
  have "len s' = len buf + nat (padCount buf sz)"
    using append_bytes_props(2) [OF app] by (simp add: padding_def)
  then have l: "int (len s') = int (len buf) + (sz - int (len buf) mod sz)"
    using r by (simp add: padCount_def)
  have sz: "0 < sz" using assms(1) by simp
  have "int (len s') mod sz = 0"
    unfolding l by (rule padded_length_mod)
  moreover have "int (len buf) + 1 \<le> int (len s')"
    using l r by (simp add: padCount_def)
  moreover have "\<forall>m. m mod sz = 0 \<and> int (len buf) + 1 \<le> m \<longrightarrow> int (len s') \<le> m"
    unfolding l by (auto intro: padded_length_least [OF sz])
  ultimately show ?thesis using P by auto
qed

theorem Pad_length_least_multiple_witness:
  "(1::int) \<le> 16 \<and> (16::int) \<le> 255
   \<and> (\<exists>s' h'. Pad \<lparr>cells = (\<lambda>a. 0x41), brk = 64, growcap = (\<lambda>c n. 2 * n)\<rparr>
                      \<lparr>ptr = 3, len = 32, cap = 40\<rparr> 16 = Inr (s', h')
              \<and> int (len s') mod 16 = 0 \<and> 32 < len s' \<and> int (len s') \<le> 48)"
proof -
  let ?h = "\<lparr>cells = (\<lambda>a. 0x41), brk = 64, growcap = (\<lambda>c n. 2 * n)\<rparr>"
  let ?b = "\<lparr>ptr = 3, len = 32, cap = 40\<rparr>"
  obtain s' h' where P: "Pad ?h ?b 16 = Inr (s', h')" "int (len s') mod 16 = 0" "len ?b < len s'"
    and least: "\<forall>m. m mod 16 = 0 \<and> int (len ?b) + 1 \<le> m \<longrightarrow> int (len s') \<le> m"
    using Pad_length_least_multiple [of 16 ?h ?b] by auto
  have "int (len s') \<le> 48" using least by (elim allE [of _ 48]) simp
  with P show ?thesis by auto
qed

text \<open>
  \<^bold>\<open>C7\<close> (the result is a view). When \<open>Unpad\<close> succeeds, the padding length is at most
  the length, and the result is the header of the input with the length reduced by the
  padding length: same pointer, same capacity, and its bytes are the first
  \<open>n - padValue\<close> bytes of the input. \<open>Unpad\<close> does not write to the memory and
  allocates nothing: it returns no new memory.
\<close>

theorem Unpad_returns_view:
  assumes "Unpad h buf = Inr (s, None)"
  shows "unat (last (bytes_of h buf)) \<le> len buf
         \<and> s = buf\<lparr>len := len buf - unat (last (bytes_of h buf))\<rparr>
         \<and> ptr s = ptr buf \<and> cap s = cap buf
         \<and> bytes_of h s = take (len buf - unat (last (bytes_of h buf))) (bytes_of h buf)"
proof -
  have pos: "0 < len buf" using assms by (cases "len buf = 0") (simp_all add: Unpad_nil)
  then have p: "last (bytes_of h buf) = padLen_of h buf" by (rule last_bytes_of)
  have s: "s = buf\<lparr>len := len buf - unat (padLen_of h buf)\<rparr>"
    and le: "unat (padLen_of h buf) \<le> len buf"
    using Unpad_success_padded(2,3) [OF assms] by simp_all
  have "bytes_of h s = take (len buf - unat (padLen_of h buf)) (bytes_of h buf)"
    unfolding s by (rule bytes_of_len_update) simp
  then show ?thesis using s le by (simp add: p)
qed

theorem Unpad_returns_view_witness:
  "Unpad \<lparr>cells = (\<lambda>a. if a = 7 then 0x41 else if a = 8 then 0x42 else 2), brk = 16, growcap = (\<lambda>c n. n)\<rparr>
         \<lparr>ptr = 7, len = 4, cap = 8\<rparr> = Inr (\<lparr>ptr = 7, len = 2, cap = 8\<rparr>, None)
   \<and> bytes_of \<lparr>cells = (\<lambda>a. if a = 7 then 0x41 else if a = 8 then 0x42 else 2), brk = 16, growcap = (\<lambda>c n. n)\<rparr>
         \<lparr>ptr = 7, len = 2, cap = 8\<rparr>
     = take (4 - unat (last (bytes_of \<lparr>cells = (\<lambda>a. if a = 7 then 0x41 else if a = 8 then 0x42 else 2), brk = 16, growcap = (\<lambda>c n. n)\<rparr>
                                      \<lparr>ptr = 7, len = 4, cap = 8\<rparr>)))
            (bytes_of \<lparr>cells = (\<lambda>a. if a = 7 then 0x41 else if a = 8 then 0x42 else 2), brk = 16, growcap = (\<lambda>c n. n)\<rparr>
                      \<lparr>ptr = 7, len = 4, cap = 8\<rparr>)"
proof -
  let ?h = "\<lparr>cells = (\<lambda>a. if a = 7 then 0x41 else if a = 8 then 0x42 else 2), brk = 16, growcap = (\<lambda>c n. n)\<rparr>"
  have u: "Unpad ?h \<lparr>ptr = 7, len = 4, cap = 8\<rparr> = Inr (\<lparr>ptr = 7, len = 2, cap = 8\<rparr>, None)"
    by code_simp
  show ?thesis using u Unpad_returns_view [OF u] by simp
qed

text \<open>
  \<^bold>\<open>C8\<close> (block size out of range). \<open>Pad\<close> panics when the block size is below 1 or
  above 255, and returns a slice for every block size from 1 to 255.
\<close>

theorem Pad_panics_iff_bad_size:
  "(sz < 1 \<or> 255 < sz \<longrightarrow> Pad h buf sz = Inl (InappropriateBlockSize sz))
   \<and> (1 \<le> sz \<and> sz \<le> 255 \<longrightarrow> (\<exists>r. Pad h buf sz = Inr r))"
  by (auto simp: Pad_panic Pad_eq)

theorem Pad_panics_iff_bad_size_witness:
  "((0::int) < 1 \<or> (255::int) < 0)
   \<and> Pad \<lparr>cells = (\<lambda>a. 0), brk = 16, growcap = (\<lambda>c n. n)\<rparr> \<lparr>ptr = 1, len = 3, cap = 3\<rparr> 0
       = Inl (InappropriateBlockSize 0)
   \<and> ((256::int) < 1 \<or> (255::int) < 256)
   \<and> Pad \<lparr>cells = (\<lambda>a. 0), brk = 16, growcap = (\<lambda>c n. n)\<rparr> \<lparr>ptr = 1, len = 3, cap = 3\<rparr> 256
       = Inl (InappropriateBlockSize 256)
   \<and> (1::int) \<le> 255 \<and> (255::int) \<le> 255
   \<and> (\<exists>r. Pad \<lparr>cells = (\<lambda>a. 0), brk = 16, growcap = (\<lambda>c n. n)\<rparr> \<lparr>ptr = 1, len = 3, cap = 3\<rparr> 255 = Inr r)"
  using Pad_panics_iff_bad_size [of 0 "\<lparr>cells = (\<lambda>a. 0), brk = 16, growcap = (\<lambda>c n. n)\<rparr>" "\<lparr>ptr = 1, len = 3, cap = 3\<rparr>"]
        Pad_panics_iff_bad_size [of 256 "\<lparr>cells = (\<lambda>a. 0), brk = 16, growcap = (\<lambda>c n. n)\<rparr>" "\<lparr>ptr = 1, len = 3, cap = 3\<rparr>"]
        Pad_panics_iff_bad_size [of 255 "\<lparr>cells = (\<lambda>a. 0), brk = 16, growcap = (\<lambda>c n. n)\<rparr>" "\<lparr>ptr = 1, len = 3, cap = 3\<rparr>"]
  by simp

text \<open>
  \<^bold>\<open>C9\<close> (no fault). For every slice whose length is at most its capacity, as for every
  Go slice, and every memory: \<open>Unpad\<close> returns without a panic; each index
  \<open>len(buf)-1-i\<close> of the loop lies between 0 and \<open>len(buf)-1\<close> and the index expression
  yields a byte; and when \<open>good\<close> is 1 after line 54 the slice bound
  \<open>len(buf)-int(padLen)\<close> lies between 0 and \<open>len(buf)\<close> and the slice expression yields
  a slice.
\<close>

theorem Unpad_never_faults:
  assumes "len buf \<le> cap buf"
  shows "(\<exists>r. Unpad h buf = Inr r)
         \<and> (\<forall>i. 0 \<le> i \<and> i < min 255 (int (len buf)) \<longrightarrow>
                0 \<le> int (len buf) - 1 - i \<and> int (len buf) - 1 - i \<le> int (len buf) - 1
                \<and> (\<exists>b. index h buf (int (len buf) - 1 - i) = Inr b))
         \<and> (\<forall>padLen tr. Unpad_check h buf = (Inr (padLen, 1), tr) \<longrightarrow>
                0 \<le> int (len buf) - uint padLen \<and> int (len buf) - uint padLen \<le> int (len buf)
                \<and> (\<exists>s. slice_to buf (int (len buf) - uint padLen) = Inr s))"
proof (intro conjI allI impI)
  show "\<exists>r. Unpad h buf = Inr r"
  proof (cases "0 < len buf \<and> final_good h buf = 1")
    case True
    then show ?thesis using Unpad_accept(1) [OF _ assms, of h] by blast
  next
    case False
    then have "Unpad h buf = Inr (nil, Some errPKCS7Padding)"
      by (cases "len buf = 0") (simp_all add: Unpad_nil Unpad_reject)
    then show ?thesis by blast
  qed
next
  fix i assume "0 \<le> i \<and> i < min 255 (int (len buf))"
  then show "0 \<le> int (len buf) - 1 - i" "int (len buf) - 1 - i \<le> int (len buf) - 1"
    "\<exists>b. index h buf (int (len buf) - 1 - i) = Inr b"
    by (simp_all add: index_def)
next
  fix padLen tr assume a: "Unpad_check h buf = (Inr (padLen, 1), tr)"
  have pos: "0 < len buf" using a by (cases "len buf = 0") (simp_all add: Unpad_check_empty)
  have p: "padLen = padLen_of h buf" and g: "final_good h buf = 1"
    using a by (simp_all add: Unpad_check_eq [OF pos])
  have le: "uint padLen \<le> int (len buf)"
    unfolding p using g by (intro LessOrEq_byte_len_imp) (simp add: final_good_eq split: if_splits)
  then show "0 \<le> int (len buf) - uint padLen" by simp
  show "int (len buf) - uint padLen \<le> int (len buf)" by simp
  have "int (len buf) - uint padLen \<le> int (cap buf)"
    using assms uint_ge_0 [of padLen] by linarith
  then show "\<exists>s. slice_to buf (int (len buf) - uint padLen) = Inr s"
    using le by (simp add: slice_to_def)
qed

theorem Unpad_never_faults_witness:
  "len \<lparr>ptr = 7, len = 4, cap = 8\<rparr> \<le> cap \<lparr>ptr = 7, len = 4, cap = 8\<rparr>
   \<and> (\<exists>r. Unpad \<lparr>cells = (\<lambda>a. if a < 9 then 0x41 else 2), brk = 16, growcap = (\<lambda>c n. n)\<rparr>
                    \<lparr>ptr = 7, len = 4, cap = 8\<rparr> = Inr r)
   \<and> (\<exists>b. index \<lparr>cells = (\<lambda>a. if a < 9 then 0x41 else 2), brk = 16, growcap = (\<lambda>c n. n)\<rparr>
                    \<lparr>ptr = 7, len = 4, cap = 8\<rparr> (int (len \<lparr>ptr = 7, len = 4, cap = 8\<rparr>) - 1 - 3) = Inr b)"
proof -
  let ?h = "\<lparr>cells = (\<lambda>a. if a < 9 then 0x41 else 2), brk = 16, growcap = (\<lambda>c n. n)\<rparr>"
  let ?b = "\<lparr>ptr = 7, len = 4, cap = 8\<rparr>"
  have le: "len ?b \<le> cap ?b" by simp
  have "(0::int) \<le> 3 \<and> 3 < min 255 (int (len ?b))" by simp
  then show ?thesis using le Unpad_never_faults [OF le, of ?h] by blast
qed

text \<open>
  \<^bold>\<open>C10\<close> (failure returns nil). Whenever \<open>Unpad\<close> returns an error, the error is
  \<open>errPKCS7Padding\<close> and the slice returned with it is nil.
\<close>

theorem Unpad_failure_nil:
  "\<forall>s e. Unpad h buf = Inr (s, Some e) \<longrightarrow> s = nil \<and> e = errPKCS7Padding"
proof (cases "len buf = 0")
  case True
  then show ?thesis by (simp add: Unpad_nil)
next
  case False
  then have "0 < len buf" by simp
  then show ?thesis
    by (auto simp: Unpad_eq split: if_splits sum.splits)
qed

theorem Unpad_failure_nil_witness:
  "Unpad \<lparr>cells = (\<lambda>a. if a = 7 then 1 else if a = 9 then 3 else 2), brk = 16, growcap = (\<lambda>c n. n)\<rparr>
         \<lparr>ptr = 7, len = 4, cap = 8\<rparr> = Inr (\<lparr>ptr = 0, len = 0, cap = 0\<rparr>, Some errPKCS7Padding)
   \<and> \<lparr>ptr = 0, len = 0, cap = 0\<rparr> = nil"
proof -
  let ?h = "\<lparr>cells = (\<lambda>a. if a = 7 then 1 else if a = 9 then 3 else 2), brk = 16, growcap = (\<lambda>c n. n)\<rparr>"
  let ?b = "\<lparr>ptr = 7, len = 4, cap = 8\<rparr>"
  have u: "Unpad ?h ?b = Inr (\<lparr>ptr = 0, len = 0, cap = 0\<rparr>, Some errPKCS7Padding)"
    by code_simp
  with Unpad_failure_nil [of ?h ?b] have "\<lparr>ptr = 0, len = 0, cap = 0\<rparr> = nil" by blast
  with u show ?thesis by blast
qed

end
